theory Spec2Isabelle
  imports Main "HOL-Library.Word"
begin

section \<open>The jodyhash command-line utility (utility.c)\<close>

text \<open>
  A shallow embedding of \<^verbatim>\<open>main\<close> of utility.c: option processing, the loop over the
  input arguments, line-by-line hashing (\<^verbatim>\<open>-l\<close>, \<^verbatim>\<open>-L\<close>), the chunked
  \<^verbatim>\<open>fread\<close> loop with its 4096-byte sub-blocks (\<^verbatim>\<open>-B\<close>), and what is written to
  the two output streams.

  The hash functions \<^verbatim>\<open>jody_block_hash\<close> and \<^verbatim>\<open>jody_rolling_block_hash\<close> (jody_hash.h)
  and the version strings (version.h) are not part of utility.c; they are parameters of
  the model, collected in the record \<open>env\<close>.
\<close>

subsection \<open>Bytes, constants and output\<close>

type_synonym byte = char

definition NUL :: byte where "NUL = CHR 0x00"
definition nl :: byte where "nl = CHR 0x0A"
definition cr :: byte where "cr = CHR 0x0D"
definition squote :: byte where "squote = CHR 0x27"

text \<open>\<^verbatim>\<open>#define BSIZE 32768\<close>; \<^verbatim>\<open>PATH_MAX\<close> is the value of limits.h on Linux.\<close>

definition BSIZE :: nat where "BSIZE = 32768"
definition PATH_MAX :: nat where "PATH_MAX = 4096"
definition kbsize :: nat where "kbsize = 4096"

definition EXIT_SUCCESS :: int where "EXIT_SUCCESS = 0"
definition EXIT_FAILURE :: int where "EXIT_FAILURE = 1"

text \<open>
  What a \<^verbatim>\<open>printf\<close> call writes: literal text and \<^verbatim>\<open>%s\<close> arguments as \<open>Str\<close>, the
  digest written by the macro \<^verbatim>\<open>PRINTHASH\<close> as \<open>PrintHash\<close> (its zero-padded hexadecimal
  rendering depends on \<^verbatim>\<open>JODY_HASH_WIDTH\<close> and is not expanded), a \<^verbatim>\<open>%lu\<close> or \<^verbatim>\<open>%d\<close>
  argument as \<open>Num\<close>.
\<close>

datatype 'h event = Str string | PrintHash 'h | Num nat

text \<open>
  The hash primitives take the bytes \<^verbatim>\<open>data[0 .. count-1]\<close> and the current value of
  \<^verbatim>\<open>*hash\<close>; they give the return code (0 for success) and the new value of \<^verbatim>\<open>*hash\<close>.
\<close>

record 'h env =
  jody_block_hash :: "byte list \<Rightarrow> 'h \<Rightarrow> int \<times> 'h"
  jody_rolling_block_hash :: "byte list \<Rightarrow> 'h \<Rightarrow> int \<times> 'h"
  VER :: string
  VERDATE :: string
  JODY_HASH_WIDTH :: nat
  ACCEL :: string

text \<open>The static variables of the program that outlive one input, and the two streams.\<close>

record 'h state =
  stdout :: "'h event list"
  stderr :: "'h event list"
  error :: int
  read_err :: int
  hash :: 'h

definition printf :: "'h event list \<Rightarrow> 'h state \<Rightarrow> 'h state" where
  "printf es st = st\<lparr>stdout := stdout st @ es\<rparr>"

definition fprintf_stderr :: "'h event list \<Rightarrow> 'h state \<Rightarrow> 'h state" where
  "fprintf_stderr es st = st\<lparr>stderr := stderr st @ es\<rparr>"

text \<open>\<^verbatim>\<open>#define ERR(a,b) fprintf(stderr, "%s\n", b);\<close>\<close>

definition ERR :: "string \<Rightarrow> 'h state \<Rightarrow> 'h state" where
  "ERR name st = fprintf_stderr [Str (name @ [nl])] st"

text \<open>The three statements \<^verbatim>\<open>ERR(wname, name); error = EXIT_FAILURE; read_err = 1;\<close>\<close>

definition fail_input :: "string \<Rightarrow> 'h state \<Rightarrow> 'h state" where
  "fail_input name st = (ERR name st)\<lparr>error := EXIT_FAILURE, read_err := 1\<rparr>"

definition usage :: "'h env \<Rightarrow> string \<Rightarrow> int \<Rightarrow> 'h state \<Rightarrow> 'h state" where
  "usage env progname detailed st =
     (let st1 = fprintf_stderr
            [Str ''Jody Bruchon's hashing utility '', Str (VER env), Str '' ('',
             Str (VERDATE env), Str '') ['', Num (JODY_HASH_WIDTH env),
             Str '' bit width]'', Str (ACCEL env), Str [nl]] st
      in if detailed = 0 then st1
         else fprintf_stderr
           [Str ''usage: '', Str progname, Str ('' [-b|s|n|l|L] [file_to_hash]'' @ [nl]),
            Str (''Specifying no name or '-' as the name reads from stdin'' @ [nl]),
            Str (''  -b|-s  Output in md5sum binary style instead of bare hashes'' @ [nl]),
            Str (''  -n     Output just the file name after the hash'' @ [nl]),
            Str (''  -l     Generate a hash for each text input line'' @ [nl]),
            Str (''  -L     Same as -l but also prints hashed text after the hash'' @ [nl]),
            Str (''  -B     Output a hash for every 4096 byte block of the file'' @ [nl]),
            Str (''  -r     Output a rolling 4K hash'' @ [nl])] st1)"

subsection \<open>Streams\<close>

text \<open>
  A \<^verbatim>\<open>FILE\<close> opened for reading: the bytes not yet read, whether the device fails
  (rather than ends) once they are used up, and the end-of-file and error indicators
  that \<^verbatim>\<open>feof\<close> and \<^verbatim>\<open>ferror\<close> test.
\<close>

record FILE =
  unread :: "byte list"
  faulty :: bool
  eof_ind :: bool
  err_ind :: bool

definition feof :: "FILE \<Rightarrow> bool" where "feof fp = eof_ind fp"
definition ferror :: "FILE \<Rightarrow> bool" where "ferror fp = err_ind fp"

text \<open>
  A file system maps a path to the bytes of the file and whether reading it fails after
  them; a path that cannot be opened has no entry.
\<close>

type_synonym source = "byte list \<times> bool"

definition fresh :: "source \<Rightarrow> FILE" where
  "fresh s = \<lparr>unread = fst s, faulty = snd s, eof_ind = False, err_ind = False\<rparr>"

definition fopen :: "(string \<Rightarrow> source option) \<Rightarrow> string \<Rightarrow> FILE option" where
  "fopen fs path = map_option fresh (fs path)"

text \<open>
  The stream after a read that ran out of bytes: the error indicator is set when the
  device fails, the end-of-file indicator otherwise.
\<close>

definition exhaust :: "FILE \<Rightarrow> FILE" where
  "exhaust fp = fp\<lparr>unread := [], eof_ind := (eof_ind fp \<or> \<not> faulty fp),
                   err_ind := (err_ind fp \<or> faulty fp)\<rparr>"

text \<open>
  \<^verbatim>\<open>fread(blk, 1, n, fp)\<close>: the bytes put into the buffer (their number is the return
  value) and the stream afterwards. A request that is met in full sets no indicator;
  one that is not returns the bytes there were, none of them included, and sets the
  end-of-file or the error indicator (C11, 7.21.8.1).
\<close>

definition fread :: "nat \<Rightarrow> FILE \<Rightarrow> byte list \<times> FILE" where
  "fread n fp =
     (if n \<le> length (unread fp)
      then (take n (unread fp), fp\<lparr>unread := drop n (unread fp)\<rparr>)
      else (unread fp, exhaust fp))"

text \<open>The bytes \<^verbatim>\<open>fgets\<close> takes: at most \<open>k\<close>, stopping after the first newline.\<close>

fun get_line :: "nat \<Rightarrow> byte list \<Rightarrow> byte list" where
  "get_line 0 cs = []"
| "get_line (Suc k) [] = []"
| "get_line (Suc k) (c # cs) = (if c = nl then [c] else c # get_line k cs)"

text \<open>
  \<^verbatim>\<open>fgets(blk, n, fp)\<close>: \<open>None\<close> is the null pointer (end of file before any byte, or a
  read error during the call: C11, 7.21.7.2); otherwise the buffer holds the bytes read
  followed by a NUL.
\<close>

definition fgets :: "nat \<Rightarrow> FILE \<Rightarrow> byte list option \<times> FILE" where
  "fgets n fp =
     (let l = get_line (n - 1) (unread fp)
      in if (l \<noteq> [] \<and> last l = nl) \<or> length l = n - 1
         then (Some (l @ [NUL]), fp\<lparr>unread := drop (length l) (unread fp)\<rparr>)
         else if faulty fp \<or> l = [] then (None, exhaust fp)
         else (Some (l @ [NUL]), exhaust fp))"

definition strlen :: "byte list \<Rightarrow> nat" where
  "strlen buf = length (takeWhile (\<lambda>c. c \<noteq> NUL) buf)"

text \<open>The C string that \<^verbatim>\<open>%s\<close> prints from a buffer.\<close>

definition cstring :: "byte list \<Rightarrow> string" where
  "cstring buf = takeWhile (\<lambda>c. c \<noteq> NUL) buf"

subsection \<open>Line-by-line hashing (\<^verbatim>\<open>-l\<close>, \<^verbatim>\<open>-L\<close>)\<close>

text \<open>
  The buffer after \<^verbatim>\<open>Strip \r\n and \n and \r newlines\<close>: a NUL is stored at index
  \<open>i - 2\<close> when that byte is a carriage return, at index \<open>i - 1\<close> otherwise.
\<close>

definition strip_newline :: "byte list \<Rightarrow> nat \<Rightarrow> byte list" where
  "strip_newline blk i = (if blk ! (i - 2) = cr then blk[i - 2 := NUL] else blk[i - 1 := NUL])"

lemma get_line_Nil: "get_line k cs = [] \<longleftrightarrow> k = 0 \<or> cs = []"
  by (induction k cs rule: get_line.induct) auto

lemma fgets_consumes:
  assumes "fgets BSIZE fp = (Some blk, fp')"
  shows "length (unread fp') < length (unread fp)"
proof -
  define l where "l = get_line (BSIZE - 1) (unread fp)"
  have ne: "l \<noteq> []"
    using assms unfolding fgets_def Let_def l_def [symmetric]
    by (auto simp: BSIZE_def split: if_splits)
  then have u: "unread fp \<noteq> []"
    by (simp add: l_def get_line_Nil)
  have "unread fp' = drop (length l) (unread fp) \<or> unread fp' = []"
    using assms unfolding fgets_def Let_def l_def [symmetric]
    by (auto simp: exhaust_def split: if_splits)
  then show ?thesis
    using ne u by auto
qed

text \<open>
  The loop \<^verbatim>\<open>while (fgets((char *)blk, BSIZE, fp) != NULL)\<close>. Every index used lies
  within the bytes that \<^verbatim>\<open>fgets\<close> has just stored, so the buffer is the result of that
  call alone.
\<close>

function line_loop ::
  "'w::len word env \<Rightarrow> nat \<Rightarrow> string \<Rightarrow> FILE \<Rightarrow> 'w word state \<Rightarrow> 'w word state" where
  "line_loop env outmode name fp st =
     (case fgets BSIZE fp of
        (None, fp') \<Rightarrow> st
      | (Some blk, fp') \<Rightarrow>
          (let st1 = st\<lparr>hash := 0\<rparr> in
           if ferror fp'
           then fail_input name (fprintf_stderr [Str ''error reading file: ''] st1)
           else
             (let i = strlen blk in
              if i < 2 \<or> blk ! 0 = nl then line_loop env outmode name fp' st1
              else
                (let blk' = strip_newline blk i;
                     r = jody_block_hash env (take (i - 1) blk') (hash st1);
                     st2 = st1\<lparr>hash := snd r\<rparr>
                 in if fst r \<noteq> 0
                    then fail_input name (fprintf_stderr [Str ''error hashing file: ''] st2)
                    else
                      (let st3 = printf [PrintHash (hash st2)] st2;
                           st4 = (if outmode = 3
                                  then printf [Str ([CHR 0x20, squote] @ cstring blk' @ [squote, nl])] st3
                                  else printf [Str [nl]] st3)
                       in if feof fp' then st4 else line_loop env outmode name fp' st4)))))"
  by pat_completeness auto
termination
  by (relation "measure (\<lambda>(env, outmode, name, fp, st). length (unread fp))")
     (auto dest: fgets_consumes [OF sym])

declare line_loop.simps [simp del]

subsection \<open>Chunked hashing\<close>

text \<open>
  The sub-block loop of \<^verbatim>\<open>-B\<close>: \<open>kblk\<close> sub-blocks of the chunk are done and \<open>i\<close> bytes
  are left. \<^verbatim>\<open>blk + (kblk * kboffsize)\<close> is \<open>kblk * kbsize\<close> bytes into the chunk, the
  buffer being an array of \<^verbatim>\<open>jodyhash_t\<close> and \<^verbatim>\<open>kboffsize = kbsize / sizeof(jodyhash_t)\<close>.
\<close>

function subblock_loop ::
  "'w::len word env \<Rightarrow> string \<Rightarrow> byte list \<Rightarrow> nat \<Rightarrow> nat \<Rightarrow> 'w word state \<Rightarrow> 'w word state" where
  "subblock_loop env name blk kblk i st =
     (if i > 0 then
        (let st1 = st\<lparr>hash := 0\<rparr>;
             kbdrop = (if i > kbsize then kbsize else i);
             r = jody_block_hash env (take kbdrop (drop (kblk * kbsize) blk)) (hash st1);
             st2 = st1\<lparr>hash := snd r\<rparr>
         in if fst r \<noteq> 0
            then fail_input name (fprintf_stderr [Str ''error hashing file: ''] st2)
            else subblock_loop env name blk (kblk + 1) (i - kbdrop)
                   (printf [Str [nl]] (printf [PrintHash (hash st2)] st2)))
      else st)"
  by pat_completeness auto
termination
  by (relation "measure (\<lambda>(env, name, blk, kblk, i, st). i)") (auto simp: kbsize_def)

declare subblock_loop.simps [simp del]

text \<open>What \<^verbatim>\<open>fprintf(stderr, "doing a rolling hash of %lu bytes\n", i)\<close> writes.\<close>

definition rolling_message :: "nat \<Rightarrow> 'h event list" where
  "rolling_message i = [Str ''doing a rolling hash of '', Num i, Str ('' bytes'' @ [nl])]"

text \<open>
  The non-benchmarked branch for the other modes; the flag says whether the branch left
  the read loop by \<^verbatim>\<open>break\<close>.
\<close>

definition hash_chunk ::
  "'w::len word env \<Rightarrow> nat \<Rightarrow> string \<Rightarrow> byte list \<Rightarrow> 'w word state \<Rightarrow> 'w word state \<times> bool" where
  "hash_chunk env outmode name blk st =
     (let st1 = fprintf_stderr (rolling_message (length blk)) st;
          r = (if outmode = 6 then jody_rolling_block_hash env blk (hash st1)
               else jody_block_hash env blk (hash st1));
          st2 = st1\<lparr>hash := snd r\<rparr>
      in if fst r \<noteq> 0
         then (fail_input name (fprintf_stderr [Str ''error hashing file: ''] st2), True)
         else (st2, False))"

lemma fread_consumes:
  assumes "fread n fp = (blk, fp')" "length blk \<noteq> 0"
  shows "length (unread fp') < length (unread fp)"
  using assms by (auto simp: fread_def exhaust_def split: if_splits)

text \<open>The loop \<^verbatim>\<open>while ((i = fread((void *)blk, 1, BSIZE, fp)))\<close>.\<close>

function fread_loop ::
  "'w::len word env \<Rightarrow> nat \<Rightarrow> string \<Rightarrow> FILE \<Rightarrow> 'w word state \<Rightarrow> 'w word state" where
  "fread_loop env outmode name fp st =
     (case fread BSIZE fp of
        (blk, fp') \<Rightarrow>
          if length blk = 0 then st
          else if ferror fp' then fail_input name st
          else
            (case (if outmode = 5
                   then (subblock_loop env name blk 0 (length blk) st, False)
                   else hash_chunk env outmode name blk st) of
               (st', brk) \<Rightarrow>
                 if brk then st'
                 else if feof fp' then st'
                 else fread_loop env outmode name fp' st'))"
  by pat_completeness auto
termination
  by (relation "measure (\<lambda>(env, outmode, name, fp, st). length (unread fp))")
     (auto dest: fread_consumes [OF sym])

declare fread_loop.simps [simp del]

subsection \<open>One input, and the loop over the arguments\<close>

text \<open>From the test of \<^verbatim>\<open>fp\<close> to the label \<^verbatim>\<open>close_file\<close>.\<close>

definition hash_stream ::
  "'w::len word env \<Rightarrow> nat \<Rightarrow> string \<Rightarrow> FILE \<Rightarrow> 'w word state \<Rightarrow> 'w word state" where
  "hash_stream env outmode name fp st =
     (if outmode = 2 \<or> outmode = 3 then line_loop env outmode name fp st
      else
        (let st1 = fread_loop env outmode name fp st in
         if read_err st1 = 1 then st1\<lparr>read_err := 0\<rparr>
         else
           (let st2 = (if outmode \<noteq> 5 then printf [PrintHash (hash st1)] st1 else st1)
            in if outmode = 1 then printf [Str ('' *'' @ name @ [nl])] st2
               else if outmode = 4 then printf [Str ('' '' @ name @ [nl])] st2
               else printf [Str [nl]] st2)))"

text \<open>
  The choice of the stream at the head of the \<^verbatim>\<open>do\<close> loop: the display name, the
  stream (\<open>None\<close> when \<^verbatim>\<open>fopen\<close> gives a null pointer) and the standard input as it
  is once this input has been closed. The standard input is \<open>None\<close> after its
  \<^verbatim>\<open>fclose\<close>; reading it again is undefined in C, and the model gives \<open>None\<close> for the
  run. \<open>argv ! argnum\<close> is read only when \<open>argc \<noteq> 1\<close>, where \<open>argnum < argc\<close> holds.
\<close>

definition open_input ::
  "(string \<Rightarrow> source option) \<Rightarrow> string list \<Rightarrow> nat \<Rightarrow> FILE option \<Rightarrow>
     (string \<times> FILE option \<times> FILE option) option" where
  "open_input fs argv argnum sin =
     (if length argv = 1 \<or> argv ! argnum = ''-'' then
        (case sin of
           None \<Rightarrow> None
         | Some fp \<Rightarrow> Some (take PATH_MAX ''-'', Some fp, None))
      else Some (take PATH_MAX (argv ! argnum), fopen fs (argv ! argnum), sin))"

text \<open>The body of the \<^verbatim>\<open>do\<close> loop, up to \<^verbatim>\<open>argnum++\<close>.\<close>

definition do_body ::
  "'w::len word env \<Rightarrow> (string \<Rightarrow> source option) \<Rightarrow> nat \<Rightarrow> string list \<Rightarrow> nat \<Rightarrow>
     FILE option \<Rightarrow> 'w word state \<Rightarrow> (FILE option \<times> 'w word state) option" where
  "do_body env fs outmode argv argnum sin st =
     (let st0 = st\<lparr>hash := 0\<rparr> in
      case open_input fs argv argnum sin of
        None \<Rightarrow> None
      | Some (name, fp, sin') \<Rightarrow>
          (case fp of
             None \<Rightarrow>
               Some (sin', (ERR name (fprintf_stderr [Str ''error: cannot open: ''] st0))
                            \<lparr>error := EXIT_FAILURE\<rparr>)
           | Some f \<Rightarrow> Some (sin', hash_stream env outmode name f st0)))"

function input_loop ::
  "'w::len word env \<Rightarrow> (string \<Rightarrow> source option) \<Rightarrow> nat \<Rightarrow> string list \<Rightarrow> nat \<Rightarrow>
     FILE option \<Rightarrow> 'w word state \<Rightarrow> 'w word state option" where
  "input_loop env fs outmode argv argnum sin st =
     (case do_body env fs outmode argv argnum sin st of
        None \<Rightarrow> None
      | Some (sin', st') \<Rightarrow>
          if argnum + 1 < length argv
          then input_loop env fs outmode argv (argnum + 1) sin' st'
          else Some st')"
  by pat_completeness auto
termination
  by (relation "measure (\<lambda>(env, fs, outmode, argv, argnum, sin, st). length argv - argnum)")
     auto

declare input_loop.simps [simp del]

text \<open>The mode selected by \<^verbatim>\<open>argv[1]\<close>, tested in the order of the source.\<close>

definition select_outmode :: "string \<Rightarrow> nat" where
  "select_outmode a =
     (let m1 = (if a = ''-s'' \<or> a = ''-b'' then 1 else 0);
          m2 = (if a = ''-l'' then 2 else m1);
          m3 = (if a = ''-L'' then 3 else m2);
          m4 = (if a = ''-n'' then 4 else m3);
          m5 = (if a = ''-B'' then 5 else m4)
      in if a = ''-r'' then 6 else m5)"

definition init_state :: "'w::len word state" where
  "init_state = \<lparr>stdout = [], stderr = [], error = EXIT_SUCCESS, read_err = 0, hash = 0\<rparr>"

text \<open>
  \<^verbatim>\<open>main\<close>, with \<open>argv = progname # args\<close>: the final state of the streams and the exit
  status.
\<close>

definition main ::
  "'w::len word env \<Rightarrow> (string \<Rightarrow> source option) \<Rightarrow> source \<Rightarrow> string \<Rightarrow> string list \<Rightarrow>
     ('w word state \<times> int) option" where
  "main env fs stdin_src progname args =
     (let argv = progname # args; argc = length argv in
      if argc > 1 \<and> argv ! 1 = ''-v''
      then Some (usage env progname 0 init_state, EXIT_SUCCESS)
      else if argc > 1 \<and> (argv ! 1 = ''-h'' \<or> argv ! 1 = ''--help'')
      then Some (usage env progname 1 init_state, EXIT_SUCCESS)
      else
        (let outmode = (if argc > 2 then select_outmode (argv ! 1) else 0);
             argnum = (if argc > 2 \<and> (outmode > 0 \<or> argv ! 1 = ''--'') then 2 else 1)
         in map_option (\<lambda>st. (st, error st))
              (input_loop env fs outmode argv argnum (Some (fresh stdin_src)) init_state)))"

subsection \<open>Vocabulary of the statements\<close>

text \<open>
  The buffers that successive calls \<^verbatim>\<open>fread(blk, 1, n, fp)\<close> fill from a stream that
  holds the bytes \<open>xs\<close>: consecutive pieces of \<open>n\<close> bytes, the last one possibly shorter.
\<close>

fun chunks :: "nat \<Rightarrow> 'a list \<Rightarrow> 'a list list" where
  "chunks n xs = (if n = 0 \<or> xs = [] then [] else take n xs # chunks n (drop n xs))"

declare chunks.simps [simp del]

text \<open>The primitive that \<^verbatim>\<open>outmode\<close> selects for a chunk.\<close>

definition chunk_hash ::
  "'w::len word env \<Rightarrow> nat \<Rightarrow> byte list \<Rightarrow> 'w word \<Rightarrow> int \<times> 'w word" where
  "chunk_hash env outmode c h =
     (if outmode = 6 then jody_rolling_block_hash env c h else jody_block_hash env c h)"

text \<open>The two \<^verbatim>\<open>printf\<close> calls for a sub-block, hashed from a digest of zero.\<close>

definition digest_line :: "'w::len word env \<Rightarrow> byte list \<Rightarrow> 'w word event list" where
  "digest_line env b = [PrintHash (snd (jody_block_hash env b 0)), Str [nl]]"

text \<open>
  An instance of the parameters on which the statements can be evaluated: a primitive
  that always succeeds and adds the length of the data and one to the digest, and a file
  system with the single file \<^verbatim>\<open>f\<close>.
\<close>

definition sample_hash :: "byte list \<Rightarrow> 64 word \<Rightarrow> int \<times> 64 word" where
  "sample_hash bs h = (0, h + of_nat (length bs) + 1)"

definition sample_env :: "64 word env" where
  "sample_env = \<lparr>jody_block_hash = sample_hash, jody_rolling_block_hash = sample_hash,
                  VER = ''7.3'', VERDATE = ''2023'', JODY_HASH_WIDTH = 64,
                  ACCEL = '' standard''\<rparr>"

definition sample_fs :: "byte list \<Rightarrow> bool \<Rightarrow> string \<Rightarrow> source option" where
  "sample_fs data flt path = (if path = ''f'' then Some (data, flt) else None)"

section \<open>Properties\<close>

subsection \<open>Chunks of a byte sequence\<close>

lemma chunks_Nil [simp]: "chunks n [] = []"
  by (simp add: chunks.simps)

lemma chunks_step: "0 < n \<Longrightarrow> xs \<noteq> [] \<Longrightarrow> chunks n xs = take n xs # chunks n (drop n xs)"
  by (subst chunks.simps) simp

lemma chunks_short: "0 < n \<Longrightarrow> xs \<noteq> [] \<Longrightarrow> length xs \<le> n \<Longrightarrow> chunks n xs = [xs]"
  by (simp add: chunks_step)

lemma chunks_append:
  "0 < n \<Longrightarrow> length xs = n * m \<Longrightarrow> chunks n (xs @ ys) = chunks n xs @ chunks n ys"
proof (induction m arbitrary: xs)
  case 0
  then show ?case by simp
next
  case (Suc m)
  then have len: "n \<le> length xs" and ne: "xs \<noteq> []" by auto
  have d: "length (drop n xs) = n * m" using Suc.prems by simp
  have "chunks n (xs @ ys) = take n xs # chunks n (drop n xs @ ys)"
    using Suc.prems(1) ne len by (simp add: chunks_step)
  also have "\<dots> = take n xs # chunks n (drop n xs) @ chunks n ys"
    using Suc.IH [OF Suc.prems(1) d] by simp
  also have "\<dots> = chunks n xs @ chunks n ys"
    using Suc.prems(1) ne by (simp add: chunks_step)
  finally show ?case .
qed

lemma chunks_length: "0 < n \<Longrightarrow> length (chunks n xs) = (length xs + n - 1) div n"
proof (induction n xs rule: chunks.induct)
  case (1 n xs)
  show ?case
  proof (cases "xs = []")
    case True
    then show ?thesis using "1.prems" by simp
  next
    case False
    have ih: "length (chunks n (drop n xs)) = (length (drop n xs) + n - 1) div n"
      using "1.IH" False "1.prems" by simp
    show ?thesis
    proof (cases "n \<le> length xs")
      case True
      then have "length xs + n - 1 = (length xs - n + n - 1) + n" using "1.prems" by simp
      then have "(length xs + n - 1) div n = Suc ((length xs - n + n - 1) div n)"
        using "1.prems" by (metis div_add_self2 less_numeral_extra(3) Suc_eq_plus1)
      then show ?thesis using ih False "1.prems" by (simp add: chunks_step)
    next
      case F: False
      have "length xs + n - 1 = (length xs - 1) + n" using False by (cases xs) simp_all
      then have "(length xs + n - 1) div n = Suc ((length xs - 1) div n)"
        using "1.prems" by (metis div_add_self2 less_numeral_extra(3) Suc_eq_plus1)
      moreover have "(length xs - 1) div n = 0" using F False by simp
      ultimately have "(length xs + n - 1) div n = 1" by simp
      then show ?thesis using F False "1.prems" by (simp add: chunks_step)
    qed
  qed
qed

lemma chunks_nth:
  "0 < n \<Longrightarrow> j < length (chunks n xs) \<Longrightarrow> chunks n xs ! j = take n (drop (j * n) xs)"
proof (induction j arbitrary: xs)
  case 0
  then show ?case by (cases "xs = []") (simp_all add: chunks_step)
next
  case (Suc j)
  then have ne: "xs \<noteq> []" by auto
  then have "chunks n xs ! Suc j = chunks n (drop n xs) ! j"
    using Suc.prems by (simp add: chunks_step)
  also have "\<dots> = take n (drop (j * n) (drop n xs))"
    using Suc.prems ne by (intro Suc.IH) (simp_all add: chunks_step)
  finally show ?case by (simp add: add.commute)
qed

lemma chunks_eq_map:
  "0 < n \<Longrightarrow> chunks n xs = map (\<lambda>j. take n (drop (n * j) xs)) [0..<(length xs + n - 1) div n]"
  by (rule nth_equalityI) (simp_all add: chunks_length chunks_nth mult.commute)

subsection \<open>The chunked read loop on a stream that reads without a fault\<close>

lemma hash_chunk_ok:
  assumes "fst (chunk_hash env outmode c (hash st)) = 0"
  shows "hash_chunk env outmode name c st =
           (st\<lparr>stderr := stderr st @ rolling_message (length c),
               hash := snd (chunk_hash env outmode c (hash st))\<rparr>, False)"
  using assms
  by (cases "outmode = 6")
     (simp_all add: hash_chunk_def chunk_hash_def fprintf_stderr_def Let_def)

lemma fread_loop_accumulate:
  assumes "outmode \<noteq> 5" "\<not> faulty fp" "\<not> err_ind fp" "\<not> eof_ind fp"
    and ok: "\<forall>c h. fst (chunk_hash env outmode c h) = 0"
  shows "fread_loop env outmode name fp st =
           st\<lparr>stderr := stderr st @
                  concat (map (\<lambda>c. rolling_message (length c)) (chunks BSIZE (unread fp))),
              hash := foldl (\<lambda>h c. snd (chunk_hash env outmode c h)) (hash st)
                        (chunks BSIZE (unread fp))\<rparr>"
  using assms(2-4)
proof (induction "length (unread fp)" arbitrary: fp st rule: less_induct)
  case less
  have B: "0 < BSIZE" by (simp add: BSIZE_def)
  show ?case
  proof (cases "unread fp = []")
    case True
    then show ?thesis
      by (subst fread_loop.simps) (simp add: fread_def B)
  next
    case ne: False
    show ?thesis
    proof (cases "BSIZE \<le> length (unread fp)")
      case True
      let ?fp' = "fp\<lparr>unread := drop BSIZE (unread fp)\<rparr>"
      let ?c = "take BSIZE (unread fp)"
      let ?st' = "st\<lparr>stderr := stderr st @ rolling_message (length ?c),
                     hash := snd (chunk_hash env outmode ?c (hash st))\<rparr>"
      have fr: "fread BSIZE fp = (?c, ?fp')" using True by (simp add: fread_def)
      have hc: "hash_chunk env outmode name ?c st = (?st', False)"
        using ok by (simp add: hash_chunk_ok)
      have step: "fread_loop env outmode name fp st = fread_loop env outmode name ?fp' ?st'"
        using True B ne less.prems assms(1)
        by (subst fread_loop.simps) (simp add: fr hc ferror_def feof_def)
      have ih: "fread_loop env outmode name ?fp' ?st' =
           ?st'\<lparr>stderr := stderr ?st' @
                   concat (map (\<lambda>c. rolling_message (length c)) (chunks BSIZE (unread ?fp'))),
              hash := foldl (\<lambda>h c. snd (chunk_hash env outmode c h)) (hash ?st')
                        (chunks BSIZE (unread ?fp'))\<rparr>"
        using True B less.prems by (intro less.hyps) simp_all
      show ?thesis
        unfolding step ih using ne B by (simp add: chunks_step)
    next
      case False
      let ?c = "unread fp"
      let ?st' = "st\<lparr>stderr := stderr st @ rolling_message (length ?c),
                     hash := snd (chunk_hash env outmode ?c (hash st))\<rparr>"
      have fr: "fread BSIZE fp = (?c, exhaust fp)" using False by (simp add: fread_def)
      have hc: "hash_chunk env outmode name ?c st = (?st', False)"
        using ok by (simp add: hash_chunk_ok)
      have step: "fread_loop env outmode name fp st = ?st'"
        using ne less.prems assms(1)
        by (subst fread_loop.simps) (simp add: fr hc ferror_def feof_def exhaust_def)
      show ?thesis
        using ne B False by (simp add: step chunks_short)
    qed
  qed
qed

subsection \<open>The sub-block loop\<close>

lemma subblock_loop_ok:
  assumes ok: "\<forall>b. fst (jody_block_hash env b 0) = 0"
    and "i = length (drop (kblk * kbsize) blk)"
  shows "stdout (subblock_loop env name blk kblk i st) =
           stdout st @ concat (map (digest_line env) (chunks kbsize (drop (kblk * kbsize) blk)))
       \<and> stderr (subblock_loop env name blk kblk i st) = stderr st
       \<and> error (subblock_loop env name blk kblk i st) = error st
       \<and> read_err (subblock_loop env name blk kblk i st) = read_err st"
  using assms(2)
proof (induction i arbitrary: kblk st rule: less_induct)
  case (less i)
  let ?rest = "drop (kblk * kbsize) blk"
  have K: "0 < kbsize" by (simp add: kbsize_def)
  show ?case
  proof (cases "i = 0")
    case True
    then have "?rest = []" using less.prems by simp
    then show ?thesis using True by (subst (1 2 3 4) subblock_loop.simps) simp
  next
    case False
    then have ne: "?rest \<noteq> []" using less.prems by auto
    let ?kbdrop = "if i > kbsize then kbsize else i"
    have blk: "take ?kbdrop ?rest = take kbsize ?rest"
      using less.prems by auto
    let ?h = "snd (jody_block_hash env (take kbsize ?rest) 0)"
    let ?st' = "printf [Str [nl]] (printf [PrintHash ?h] (st\<lparr>hash := ?h\<rparr>))"
    have step: "subblock_loop env name blk kblk i st =
                subblock_loop env name blk (kblk + 1) (i - ?kbdrop) ?st'"
      using False ok blk by (subst subblock_loop.simps) (simp add: Let_def)
    have d: "drop ((kblk + 1) * kbsize) blk = drop kbsize ?rest"
      by (simp add: add.commute)
    have len: "i - ?kbdrop = length (drop ((kblk + 1) * kbsize) blk)"
      unfolding d using less.prems by auto
    have lt: "i - ?kbdrop < i" using False K by auto
    note ih = less.IH [OF lt len, of ?st']
    have c: "chunks kbsize ?rest = take kbsize ?rest # chunks kbsize (drop kbsize ?rest)"
      using K ne by (rule chunks_step)
    show ?thesis
      unfolding step using ih unfolding d c
      by (simp add: printf_def digest_line_def)
  qed
qed

lemma BSIZE_kbsize: "BSIZE = kbsize * 8"
  by (simp add: BSIZE_def kbsize_def)

lemma fread_loop_subblock:
  assumes "\<not> faulty fp" "\<not> err_ind fp" "\<not> eof_ind fp"
    and ok: "\<forall>b. fst (jody_block_hash env b 0) = 0"
  shows "stdout (fread_loop env 5 name fp st) =
           stdout st @ concat (map (digest_line env) (chunks kbsize (unread fp)))
       \<and> stderr (fread_loop env 5 name fp st) = stderr st
       \<and> error (fread_loop env 5 name fp st) = error st
       \<and> read_err (fread_loop env 5 name fp st) = read_err st"
  using assms(1-3)
proof (induction "length (unread fp)" arbitrary: fp st rule: less_induct)
  case less
  have B: "0 < BSIZE" by (simp add: BSIZE_def)
  have K: "0 < kbsize" by (simp add: kbsize_def)
  show ?case
  proof (cases "unread fp = []")
    case True
    then have "fread_loop env 5 name fp st = st"
      by (subst fread_loop.simps) (simp add: fread_def B)
    then show ?thesis using True by simp
  next
    case ne: False
    show ?thesis
    proof (cases "BSIZE \<le> length (unread fp)")
      case True
      let ?fp' = "fp\<lparr>unread := drop BSIZE (unread fp)\<rparr>"
      let ?c = "take BSIZE (unread fp)"
      let ?st' = "subblock_loop env name ?c 0 (length ?c) st"
      have fr: "fread BSIZE fp = (?c, ?fp')" using True by (simp add: fread_def)
      have step: "fread_loop env 5 name fp st = fread_loop env 5 name ?fp' ?st'"
        using True B ne less.prems
        by (subst fread_loop.simps) (simp add: fr ferror_def feof_def)
      have sb: "stdout ?st' = stdout st @ concat (map (digest_line env) (chunks kbsize ?c))
          \<and> stderr ?st' = stderr st \<and> error ?st' = error st \<and> read_err ?st' = read_err st"
        using subblock_loop_ok [OF ok, of "length ?c" 0 ?c name st] by simp
      have ih: "stdout (fread_loop env 5 name ?fp' ?st') =
           stdout ?st' @ concat (map (digest_line env) (chunks kbsize (unread ?fp')))
         \<and> stderr (fread_loop env 5 name ?fp' ?st') = stderr ?st'
         \<and> error (fread_loop env 5 name ?fp' ?st') = error ?st'
         \<and> read_err (fread_loop env 5 name ?fp' ?st') = read_err ?st'"
        using True B less.prems by (intro less.hyps) simp_all
      have "length ?c = kbsize * 8" using True by (simp add: BSIZE_kbsize)
      then have "chunks kbsize (?c @ drop BSIZE (unread fp)) =
                 chunks kbsize ?c @ chunks kbsize (drop BSIZE (unread fp))"
        using K by (rule chunks_append [rotated])
      then have ch: "chunks kbsize (unread fp) =
                 chunks kbsize ?c @ chunks kbsize (drop BSIZE (unread fp))"
        by simp
      show ?thesis
        unfolding step using ih sb by (simp add: ch)
    next
      case False
      let ?c = "unread fp"
      let ?st' = "subblock_loop env name ?c 0 (length ?c) st"
      have fr: "fread BSIZE fp = (?c, exhaust fp)" using False by (simp add: fread_def)
      have step: "fread_loop env 5 name fp st = ?st'"
        using ne less.prems
        by (subst fread_loop.simps) (simp add: fr ferror_def feof_def exhaust_def)
      show ?thesis
        unfolding step using subblock_loop_ok [OF ok, of "length ?c" 0 ?c name st] by simp
    qed
  qed
qed

subsection \<open>Reading lines\<close>

lemma get_line_terminated:
  "nl \<notin> set T \<Longrightarrow> length T < k \<Longrightarrow> get_line k (T @ nl # rest) = T @ [nl]"
proof (induction T arbitrary: k)
  case Nil
  then show ?case by (cases k) simp_all
next
  case (Cons c T)
  then show ?case by (cases k) auto
qed

lemma get_line_unterminated:
  "nl \<notin> set L \<Longrightarrow> length L \<le> k \<Longrightarrow> get_line k L = L"
proof (induction L arbitrary: k)
  case Nil
  then show ?case by (cases k) simp_all
next
  case (Cons c L)
  then show ?case by (cases k) auto
qed

lemma fgets_terminated:
  assumes "unread fp = T @ nl # rest" "nl \<notin> set T" "length T + 1 < BSIZE"
  shows "fgets BSIZE fp = (Some (T @ [nl, NUL]), fp\<lparr>unread := rest\<rparr>)"
proof -
  have "get_line (BSIZE - 1) (unread fp) = T @ [nl]"
    using assms by (simp add: get_line_terminated)
  then show ?thesis
    using assms(1) by (simp add: fgets_def)
qed

lemma fgets_final:
  assumes "unread fp = L" "L \<noteq> []" "nl \<notin> set L" "length L + 1 < BSIZE" "\<not> faulty fp"
  shows "fgets BSIZE fp = (Some (L @ [NUL]), exhaust fp)"
proof -
  have g: "get_line (BSIZE - 1) (unread fp) = L"
    using assms by (simp add: get_line_unterminated)
  have "last L \<noteq> nl" using assms(2,3) last_in_set by metis
  then show ?thesis
    using assms g by (simp add: fgets_def)
qed

lemma fgets_fault:
  assumes "unread fp = L" "nl \<notin> set L" "length L + 1 < BSIZE" "faulty fp"
  shows "fgets BSIZE fp = (None, exhaust fp)"
proof -
  have g: "get_line (BSIZE - 1) (unread fp) = L"
    using assms by (simp add: get_line_unterminated)
  have "L \<noteq> [] \<Longrightarrow> last L \<noteq> nl" using assms(2) last_in_set by metis
  then show ?thesis
    using assms g by (auto simp: fgets_def)
qed

lemma fgets_eof:
  assumes "unread fp = []"
  shows "fgets BSIZE fp = (None, exhaust fp)"
proof -
  have "get_line (BSIZE - 1) (unread fp) = []"
    using assms by (simp add: get_line_Nil)
  then show ?thesis
    by (simp add: fgets_def BSIZE_def)
qed

lemma cstring_append: "NUL \<notin> set T \<Longrightarrow> cstring (T @ NUL # x) = T"
proof -
  assume "NUL \<notin> set T"
  then have "takeWhile (\<lambda>c. c \<noteq> NUL) (T @ NUL # x) = T @ takeWhile (\<lambda>c. c \<noteq> NUL) (NUL # x)"
    by (intro takeWhile_append2) auto
  then show ?thesis by (simp add: cstring_def)
qed

lemma strlen_append: "NUL \<notin> set T \<Longrightarrow> strlen (T @ NUL # x) = length T"
  using cstring_append [of T x] by (simp add: strlen_def cstring_def)

subsection \<open>The flag \<^verbatim>\<open>read_err\<close>\<close>

lemma subblock_loop_read_err:
  "read_err (subblock_loop env name blk kblk i st) = read_err st \<or>
   read_err (subblock_loop env name blk kblk i st) = 1"
proof (induction env name blk kblk i st rule: subblock_loop.induct)
  case (1 env name blk kblk i st)
  show ?case
  proof (cases "i > 0")
    case False
    then show ?thesis by (subst (1 2) subblock_loop.simps) simp
  next
    case True
    let ?kbdrop = "if i > kbsize then kbsize else i"
    let ?r = "jody_block_hash env (take ?kbdrop (drop (kblk * kbsize) blk)) 0"
    show ?thesis
    proof (cases "fst ?r = 0")
      case f: False
      then show ?thesis using True
        by (subst (1 2) subblock_loop.simps)
           (simp add: Let_def fail_input_def ERR_def fprintf_stderr_def)
    next
      case t: True
      have "read_err (subblock_loop env name blk (kblk + 1) (i - ?kbdrop)
               (printf [Str [nl]] (printf [PrintHash (hash (st\<lparr>hash := snd ?r\<rparr>))] (st\<lparr>hash := snd ?r\<rparr>)))) = read_err st \<or>
            read_err (subblock_loop env name blk (kblk + 1) (i - ?kbdrop)
               (printf [Str [nl]] (printf [PrintHash (hash (st\<lparr>hash := snd ?r\<rparr>))] (st\<lparr>hash := snd ?r\<rparr>)))) = 1"
        using "1.IH" [OF True refl refl refl refl] t by (simp add: printf_def)
      then show ?thesis using True t
        by (subst (1 2) subblock_loop.simps) (simp add: Let_def)
    qed
  qed
qed

lemma hash_chunk_read_err:
  "read_err (fst (hash_chunk env outmode name blk st)) = read_err st \<or>
   read_err (fst (hash_chunk env outmode name blk st)) = 1"
  by (simp add: hash_chunk_def Let_def fail_input_def ERR_def fprintf_stderr_def)

lemma fread_loop_read_err:
  "read_err (fread_loop env outmode name fp st) = read_err st \<or>
   read_err (fread_loop env outmode name fp st) = 1"
proof (induction "length (unread fp)" arbitrary: fp st rule: less_induct)
  case less
  obtain blk fp' where fr: "fread BSIZE fp = (blk, fp')"
    by (cases "fread BSIZE fp")
  define body where "body =
    (if outmode = 5 then (subblock_loop env name blk 0 (length blk) st, False)
     else hash_chunk env outmode name blk st)"
  have b: "read_err (fst body) = read_err st \<or> read_err (fst body) = 1"
    using subblock_loop_read_err [of env name blk 0 "length blk" st]
      hash_chunk_read_err [of env outmode name blk st]
    by (auto simp: body_def)
  have unf: "fread_loop env outmode name fp st =
      (if length blk = 0 then st
       else if ferror fp' then fail_input name st
       else if snd body then fst body
       else if feof fp' then fst body
       else fread_loop env outmode name fp' (fst body))"
    by (subst fread_loop.simps) (simp add: fr body_def split: prod.splits)
  show ?case
  proof (cases "length blk = 0 \<or> ferror fp' \<or> snd body \<or> feof fp'")
    case True
    then show ?thesis
      using b by (auto simp: unf fail_input_def ERR_def fprintf_stderr_def)
  next
    case False
    then have lt: "length (unread fp') < length (unread fp)"
      using fread_consumes [OF fr] by simp
    have "read_err (fread_loop env outmode name fp' (fst body)) = read_err (fst body) \<or>
          read_err (fread_loop env outmode name fp' (fst body)) = 1"
      by (rule less.hyps [OF lt])
    then show ?thesis
      using False b by (auto simp: unf)
  qed
qed

text \<open>
  Outside the line modes \<^verbatim>\<open>read_err\<close> is 0 whenever the \<^verbatim>\<open>do\<close> loop starts on an
  input: it is 0 at the start and every pass through the loop body leaves it at 0.
\<close>

lemma do_body_read_err:
  assumes "outmode \<noteq> 2" "outmode \<noteq> 3" "read_err st = 0"
    and "do_body env fs outmode argv argnum sin st = Some (sin', st')"
  shows "read_err st' = 0"
proof -
  have hs: "read_err (hash_stream env outmode name fp (st\<lparr>hash := 0\<rparr>)) = 0" for name fp
    using assms(1-3) fread_loop_read_err [of env outmode name fp "st\<lparr>hash := 0\<rparr>"]
    by (auto simp: hash_stream_def Let_def printf_def)
  show ?thesis
    using assms(3,4) hs
    by (auto simp: do_body_def Let_def ERR_def fprintf_stderr_def
             split: option.splits prod.splits)
qed

subsection \<open>One input in the modes that hash whole chunks\<close>

lemma do_body_opened:
  assumes "open_input fs argv argnum sin = Some (name, Some fp, sin')"
  shows "do_body env fs outmode argv argnum sin st =
           Some (sin', hash_stream env outmode name fp (st\<lparr>hash := 0\<rparr>))"
  using assms by (simp add: do_body_def)

lemma fresh_simps [simp]:
  "unread (fresh (d, flt)) = d" "faulty (fresh (d, flt)) = flt"
  "eof_ind (fresh (d, flt)) = False" "err_ind (fresh (d, flt)) = False"
  by (simp_all add: fresh_def)

lemma hash_stream_accumulate:
  assumes "outmode \<noteq> 2" "outmode \<noteq> 3" "outmode \<noteq> 5"
    and ok: "\<forall>c h. fst (chunk_hash env outmode c h) = 0"
    and re: "read_err st = 0"
  shows "hash_stream env outmode name (fresh (data, False)) (st\<lparr>hash := 0\<rparr>) =
           st\<lparr>hash := foldl (\<lambda>h c. snd (chunk_hash env outmode c h)) 0 (chunks BSIZE data),
              stderr := stderr st @ concat (map (\<lambda>c. rolling_message (length c)) (chunks BSIZE data)),
              stdout := stdout st @
                [PrintHash (foldl (\<lambda>h c. snd (chunk_hash env outmode c h)) 0 (chunks BSIZE data)),
                 Str (if outmode = 1 then '' *'' @ name @ [nl]
                      else if outmode = 4 then '' '' @ name @ [nl] else [nl])]\<rparr>"
proof -
  have fl: "fread_loop env outmode name (fresh (data, False)) (st\<lparr>hash := 0\<rparr>) =
      st\<lparr>hash := 0, stderr := stderr st @ concat (map (\<lambda>c. rolling_message (length c)) (chunks BSIZE data)),
         hash := foldl (\<lambda>h c. snd (chunk_hash env outmode c h)) 0 (chunks BSIZE data)\<rparr>"
    using fread_loop_accumulate [OF assms(3) _ _ _ ok, of "fresh (data, False)" name "st\<lparr>hash := 0\<rparr>"]
    by simp
  show ?thesis
    using assms(1-3) re by (simp add: hash_stream_def fl Let_def printf_def)
qed

text \<open>
  C8. In rolling mode (\<^verbatim>\<open>-r\<close>, \<open>outmode = 6\<close>), whatever digest the previous inputs left
  behind, an input that is read without a fault and hashed without an error gives one
  digest: the rolling primitive folded over the chunks of the input in order, from the
  digest zero, each chunk taking the digest of the chunk before it as its seed.
\<close>

theorem rolling_digest_carried_across_chunks:
  assumes "open_input fs argv argnum sin = Some (name, Some (fresh (data, False)), sin')"
    and "\<forall>c h. fst (jody_rolling_block_hash env c h) = 0"
    and "read_err st = 0"
  shows "do_body env fs 6 argv argnum sin st =
           Some (sin',
             st\<lparr>hash := foldl (\<lambda>h c. snd (jody_rolling_block_hash env c h)) 0 (chunks BSIZE data),
                stderr := stderr st @
                  concat (map (\<lambda>c. rolling_message (length c)) (chunks BSIZE data)),
                stdout := stdout st @
                  [PrintHash (foldl (\<lambda>h c. snd (jody_rolling_block_hash env c h)) 0
                                (chunks BSIZE data)),
                   Str [nl]]\<rparr>)"
proof -
  have ok: "\<forall>c h. fst (chunk_hash env 6 c h) = 0"
    using assms(2) by (simp add: chunk_hash_def)
  have ch: "chunk_hash env 6 = jody_rolling_block_hash env"
    by (rule ext)+ (simp add: chunk_hash_def)
  show ?thesis
    using hash_stream_accumulate [OF _ _ _ ok assms(3), of name data]
    by (simp add: do_body_opened [OF assms(1)] ch)
qed

theorem rolling_digest_carried_across_chunks_witness:
  "do_body sample_env (sample_fs ''hello'' False) 6 [''jodyhash'', ''-r'', ''f''] 2 None
      (init_state\<lparr>hash := 77\<rparr>) =
     Some (None, init_state\<lparr>hash := 6, stderr := rolling_message (length ''hello''),
                            stdout := [PrintHash 6, Str [nl]]\<rparr>)"
proof -
  have a: "open_input (sample_fs ''hello'' False) [''jodyhash'', ''-r'', ''f''] 2 None =
             Some (''f'', Some (fresh (''hello'', False)), None)"
    by (simp add: open_input_def sample_fs_def fopen_def PATH_MAX_def)
  have b: "\<forall>c h. fst (jody_rolling_block_hash sample_env c h) = 0"
    by (simp add: sample_env_def sample_hash_def)
  have c: "read_err (init_state\<lparr>hash := 77\<rparr> :: 64 word state) = 0"
    by (simp add: init_state_def)
  have d: "chunks BSIZE ''hello'' = [''hello'']"
    by (simp add: chunks_short BSIZE_def)
  show ?thesis
    using rolling_digest_carried_across_chunks [OF a b c]
    by (simp add: d sample_env_def sample_hash_def init_state_def)
qed

lemma hash_chunk_stderr:
  "stderr (fst (hash_chunk env outmode name blk st)) =
     stderr st @ rolling_message (length blk) @
       (if fst (chunk_hash env outmode blk (hash st)) \<noteq> 0
        then [Str ''error hashing file: '', Str (name @ [nl])] else [])"
  by (cases "outmode = 6")
     (simp_all add: hash_chunk_def chunk_hash_def fprintf_stderr_def fail_input_def ERR_def
        Let_def)

text \<open>
  C10. In every mode but the line modes and the sub-block mode (\<open>outmode\<close> other than 2,
  3 and 5: whole-file, binary style, per-name and rolling), an input that is read without
  a fault and hashed without an error adds to the diagnostic stream exactly the message
  \<^verbatim>\<open>doing a rolling hash of <n> bytes\<close> once for each chunk read, with \<open>n\<close> the size of
  the chunk, whether or not the mode is the rolling one.
\<close>

theorem rolling_message_for_every_chunk:
  assumes "open_input fs argv argnum sin = Some (name, Some (fresh (data, False)), sin')"
    and "outmode \<noteq> 2" "outmode \<noteq> 3" "outmode \<noteq> 5"
    and "\<forall>c h. fst (jody_block_hash env c h) = 0"
    and "\<forall>c h. fst (jody_rolling_block_hash env c h) = 0"
    and "read_err st = 0"
  shows "\<exists>st'. do_body env fs outmode argv argnum sin st = Some (sin', st') \<and>
           stderr st' = stderr st @
             concat (map (\<lambda>c. rolling_message (length c)) (chunks BSIZE data))"
proof -
  have ok: "\<forall>c h. fst (chunk_hash env outmode c h) = 0"
    using assms(5,6) by (simp add: chunk_hash_def)
  show ?thesis
    using hash_stream_accumulate [OF assms(2-4) ok assms(7), of name data]
    by (simp add: do_body_opened [OF assms(1)])
qed

theorem rolling_message_for_every_chunk_witness:
  "\<exists>st'. do_body sample_env (sample_fs ''hello'' False) 0 [''jodyhash'', ''f''] 1 None
            init_state = Some (None, st') \<and>
         stderr st' = [Str ''doing a rolling hash of '', Num 5, Str ('' bytes'' @ [nl])]"
proof -
  have a: "open_input (sample_fs ''hello'' False) [''jodyhash'', ''f''] 1 None =
             Some (''f'', Some (fresh (''hello'', False)), None)"
    by (simp add: open_input_def sample_fs_def fopen_def PATH_MAX_def)
  have b: "\<forall>c h. fst (jody_block_hash sample_env c h) = 0"
    "\<forall>c h. fst (jody_rolling_block_hash sample_env c h) = 0"
    by (simp_all add: sample_env_def sample_hash_def)
  have c: "read_err (init_state :: 64 word state) = 0"
    by (simp add: init_state_def)
  have d: "chunks BSIZE ''hello'' = [''hello'']"
    by (simp add: chunks_short BSIZE_def)
  show ?thesis
    using rolling_message_for_every_chunk [OF a _ _ _ b c, of 0]
    by (simp add: d rolling_message_def init_state_def eval_nat_numeral)
qed

text \<open>
  On an input of zero bytes the read loop ends at once; the primitive is not called and
  the digest written is the zero the loop body of \<^verbatim>\<open>main\<close> starts from.
\<close>

lemma empty_input_prints_zero:
  assumes "open_input fs argv argnum sin = Some (name, Some (fresh ([], False)), sin')"
    and "outmode = 0 \<or> outmode = 1"
    and "read_err st = 0"
  shows "do_body env fs outmode argv argnum sin st =
           Some (sin',
             st\<lparr>hash := 0,
                stdout := stdout st @
                  [PrintHash 0, Str (if outmode = 1 then '' *'' @ name @ [nl] else [nl])]\<rparr>)"
proof -
  have e: "fread_loop env outmode name (fresh ([], False)) (st\<lparr>hash := 0\<rparr>) = st\<lparr>hash := 0\<rparr>"
    by (subst fread_loop.simps) (simp add: fread_def BSIZE_def)
  show ?thesis
    using assms(2,3)
    by (auto simp: do_body_opened [OF assms(1)] hash_stream_def e Let_def printf_def)
qed

text \<open>
  C5. In whole-file mode and in binary-style mode (\<open>outmode\<close> 0 and 1) an input of zero
  bytes is not an error: nothing is written to the diagnostic stream, the exit status is
  unchanged, and exactly one digest line is written. The program does not call the
  primitive on an empty input and prints the digest zero it starts from; this is the
  primitive's digest of zero-length data for a primitive that gives zero on zero-length
  data from a digest of zero, which is the hypothesis on the primitive.
\<close>

theorem empty_input_digest:
  assumes "open_input fs argv argnum sin = Some (name, Some (fresh ([], False)), sin')"
    and "outmode = 0 \<or> outmode = 1"
    and "read_err st = 0"
    and "snd (jody_block_hash env [] 0) = 0"
  shows "do_body env fs outmode argv argnum sin st =
           Some (sin',
             st\<lparr>hash := 0,
                stdout := stdout st @
                  [PrintHash (snd (jody_block_hash env [] 0)),
                   Str (if outmode = 1 then '' *'' @ name @ [nl] else [nl])]\<rparr>)"
  using empty_input_prints_zero [OF assms(1-3)] assms(4) by simp

text \<open>A primitive that leaves the digest as it is on zero-length data.\<close>

theorem empty_input_digest_witness:
  "do_body (sample_env\<lparr>jody_block_hash := \<lambda>bs h. (0, h + of_nat (length bs))\<rparr>)
      (sample_fs [] False) 1 [''jodyhash'', ''-b'', ''f''] 2 None init_state =
     Some (None, init_state\<lparr>stdout := [PrintHash 0, Str ('' *f'' @ [nl])]\<rparr>)"
proof -
  let ?env = "sample_env\<lparr>jody_block_hash := \<lambda>bs h. (0, h + of_nat (length bs))\<rparr>"
  have a: "open_input (sample_fs [] False) [''jodyhash'', ''-b'', ''f''] 2 None =
             Some (''f'', Some (fresh ([], False)), None)"
    by (simp add: open_input_def sample_fs_def fopen_def PATH_MAX_def)
  have c: "read_err (init_state :: 64 word state) = 0"
    by (simp add: init_state_def)
  have d: "snd (jody_block_hash ?env [] 0) = 0"
    by simp
  show ?thesis
    using empty_input_digest [OF a _ c d, of 1]
    by (simp add: init_state_def)
qed

subsection \<open>Sub-block mode\<close>

lemma subblock_count:
  assumes "n = kbsize * k + r" "r < kbsize"
  shows "(n + kbsize - 1) div kbsize = (if r = 0 then k else k + 1)"
  using assms unfolding kbsize_def by (auto split: if_splits) 

text \<open>
  C3. In sub-block mode (\<^verbatim>\<open>-B\<close>, \<open>outmode = 5\<close>) an input of \<open>4096 * k + r\<close> bytes with
  \<open>r < 4096\<close>, read without a fault and hashed without an error, writes \<open>k\<close> digest
  lines when \<open>r = 0\<close> and \<open>k + 1\<close> when \<open>0 < r\<close>. The \<open>j\<close>-th digest is the primitive on
  the bytes from \<open>4096 * j\<close>, at most 4096 of them, from a digest of zero: full sub-blocks
  for \<open>j < k\<close>, and the final \<open>r\<close> bytes for \<open>j = k\<close>. After the digest lines the program
  writes one empty line; nothing goes to the diagnostic stream.
\<close>

theorem subblock_mode_digests:
  assumes "open_input fs argv argnum sin = Some (name, Some (fresh (data, False)), sin')"
    and "\<forall>b. fst (jody_block_hash env b 0) = 0"
    and "read_err st = 0"
    and "length data = kbsize * k + r" "r < kbsize"
  shows "\<exists>st'. do_body env fs 5 argv argnum sin st = Some (sin', st') \<and>
           stdout st' = stdout st @
             concat (map (\<lambda>j. [PrintHash (snd (jody_block_hash env
                                   (take kbsize (drop (kbsize * j) data)) 0)), Str [nl]])
                      [0..<(if r = 0 then k else k + 1)]) @ [Str [nl]] \<and>
           (\<forall>j. j < k \<longrightarrow> length (take kbsize (drop (kbsize * j) data)) = kbsize) \<and>
           (0 < r \<longrightarrow> take kbsize (drop (kbsize * k) data) = drop (kbsize * k) data \<and>
                     length (drop (kbsize * k) data) = r) \<and>
           stderr st' = stderr st \<and> error st' = error st"
proof -
  let ?st1 = "fread_loop env 5 name (fresh (data, False)) (st\<lparr>hash := 0\<rparr>)"
  have K: "0 < kbsize" by (simp add: kbsize_def)
  have fl: "stdout ?st1 = stdout st @ concat (map (digest_line env) (chunks kbsize data))"
    "stderr ?st1 = stderr st" "error ?st1 = error st" "read_err ?st1 = read_err st"
    using fread_loop_subblock [OF _ _ _ assms(2), of "fresh (data, False)" name "st\<lparr>hash := 0\<rparr>"]
    by simp_all
  have hs: "hash_stream env 5 name (fresh (data, False)) (st\<lparr>hash := 0\<rparr>) = printf [Str [nl]] ?st1"
    using fl(4) assms(3) by (simp add: hash_stream_def Let_def)
  have cm: "chunks kbsize data =
      map (\<lambda>j. take kbsize (drop (kbsize * j) data)) [0..<(if r = 0 then k else k + 1)]"
    using chunks_eq_map [OF K, of data] subblock_count [OF assms(4,5)] by simp
  have full: "\<forall>j. j < k \<longrightarrow> length (take kbsize (drop (kbsize * j) data)) = kbsize"
  proof (intro allI impI)
    fix j assume "j < k"
    then have "kbsize * Suc j \<le> kbsize * k"
      by (intro mult_le_mono2) simp
    then have "kbsize * j + kbsize \<le> kbsize * k"
      by simp
    then show "length (take kbsize (drop (kbsize * j) data)) = kbsize"
      using assms(4) by simp
  qed
  have lst: "0 < r \<longrightarrow> take kbsize (drop (kbsize * k) data) = drop (kbsize * k) data \<and>
                     length (drop (kbsize * k) data) = r"
    using assms(4,5) by simp
  show ?thesis
    unfolding do_body_opened [OF assms(1)] hs
    using fl(1-3) full lst assms(5)
    by (simp add: printf_def cm digest_line_def comp_def)
qed

theorem subblock_mode_digests_witness:
  "\<exists>st'. do_body sample_env (sample_fs (replicate 4096 (CHR ''a'') @ ''xyz'') False) 5
            [''jodyhash'', ''-B'', ''f''] 2 None init_state = Some (None, st') \<and>
         stdout st' = [PrintHash 4097, Str [nl], PrintHash 4, Str [nl], Str [nl]] \<and>
         stderr st' = [] \<and> error st' = EXIT_SUCCESS"
proof -
  let ?data = "replicate 4096 (CHR ''a'') @ ''xyz''"
  have a: "open_input (sample_fs ?data False) [''jodyhash'', ''-B'', ''f''] 2 None =
             Some (''f'', Some (fresh (?data, False)), None)"
    by (simp add: open_input_def sample_fs_def fopen_def PATH_MAX_def)
  have b: "\<forall>b. fst (jody_block_hash sample_env b 0) = 0"
    by (simp add: sample_env_def sample_hash_def)
  have c: "read_err (init_state :: 64 word state) = 0"
    by (simp add: init_state_def)
  have d: "length ?data = kbsize * 1 + 3" "3 < kbsize"
    by (simp_all add: kbsize_def)
  have u: "[0..<2] = [0, 1]"
    by (simp add: upt_rec)
  show ?thesis
    using subblock_mode_digests [OF a b c d]
    by (simp add: u kbsize_def sample_env_def sample_hash_def init_state_def)
qed

text \<open>
  One pass of the line loop on a line of at least two bytes that ends in a newline, the
  byte before the newline being \<open>d\<close>: for \<open>d\<close> a carriage return the primitive gets the
  bytes before it and a NUL, otherwise the bytes before the newline.
\<close>

lemma line_loop_terminated:
  assumes "unread fp = B @ [d, nl] @ rest" "\<not> err_ind fp" "\<not> eof_ind fp"
    and "nl \<notin> set (B @ [d])" "NUL \<notin> set (B @ [d])" "length B + 3 < BSIZE"
    and ok: "\<forall>b. fst (jody_block_hash env b 0) = 0"
  shows "line_loop env outmode name fp st =
           line_loop env outmode name (fp\<lparr>unread := rest\<rparr>)
             (st\<lparr>hash := snd (jody_block_hash env (if d = cr then B @ [NUL] else B @ [d]) 0),
                 stdout := stdout st @
                   [PrintHash (snd (jody_block_hash env (if d = cr then B @ [NUL] else B @ [d]) 0)),
                    Str (if outmode = 3
                         then [CHR 0x20, squote] @ (if d = cr then B else B @ [d]) @ [squote, nl]
                         else [nl])]\<rparr>)"
proof -
  have fg: "fgets BSIZE fp = (Some ((B @ [d]) @ [nl, NUL]), fp\<lparr>unread := rest\<rparr>)"
    using assms by (intro fgets_terminated) simp_all
  have nn: "nl \<noteq> NUL" by (simp add: nl_def NUL_def)
  have "NUL \<notin> set (B @ [d, nl])" using assms(5) nn by auto
  then have sl: "strlen (B @ [d, nl, NUL]) = Suc (Suc (length B))"
    using strlen_append [of "B @ [d, nl]" "[]"] by simp
  have hd: "(B @ [d, nl, NUL]) ! 0 \<noteq> nl"
    using assms(4) by (cases B) auto
  have nB: "NUL \<notin> set B" "d \<noteq> NUL" using assms(5) by auto
  have st1: "d = cr \<Longrightarrow> strip_newline (B @ [d, nl, NUL]) (Suc (Suc (length B))) = B @ [NUL, nl, NUL]"
    by (simp add: strip_newline_def)
  have st2: "d \<noteq> cr \<Longrightarrow> strip_newline (B @ [d, nl, NUL]) (Suc (Suc (length B))) = B @ [d, NUL, NUL]"
    by (simp add: strip_newline_def list_update_append)
  have cs1: "cstring (B @ [NUL, nl, NUL]) = B"
    using cstring_append [OF nB(1), of "[nl, NUL]"] by simp
  have cs2: "cstring (B @ [d, NUL, NUL]) = B @ [d]"
    using cstring_append [of "B @ [d]" "[NUL]"] nB by simp
  show ?thesis
  proof (cases "d = cr")
    case True
    show ?thesis
      using assms(2,3) hd ok
      by (subst line_loop.simps)
         (simp add: fg sl st1 [OF True] cs1 True [symmetric] Let_def ferror_def feof_def
            printf_def)
  next
    case False
    show ?thesis
      using assms(2,3) hd ok
      by (subst line_loop.simps)
         (simp add: fg sl st2 [OF False] cs2 False Let_def ferror_def feof_def printf_def)
  qed
qed

text \<open>A line that is a newline alone is skipped.\<close>

lemma line_loop_newline_only:
  assumes "unread fp = nl # rest" "\<not> err_ind fp"
  shows "line_loop env outmode name fp st =
           line_loop env outmode name (fp\<lparr>unread := rest\<rparr>) (st\<lparr>hash := 0\<rparr>)"
proof -
  have fg: "fgets BSIZE fp = (Some ([] @ [nl, NUL]), fp\<lparr>unread := rest\<rparr>)"
    using assms by (intro fgets_terminated) (simp_all add: BSIZE_def)
  have sl: "strlen [nl, NUL] = 1" by (simp add: strlen_def nl_def NUL_def)
  show ?thesis
    using assms(2) by (subst line_loop.simps) (simp add: fg sl Let_def ferror_def)
qed

subsection \<open>The last line of an input in the line modes\<close>

lemma line_loop_final_one:
  assumes "unread fp = [c]" "\<not> faulty fp" "\<not> err_ind fp" "c \<noteq> nl"
  shows "line_loop env outmode name fp st = st\<lparr>hash := 0\<rparr>"
proof -
  have fg: "fgets BSIZE fp = (Some ([c] @ [NUL]), exhaust fp)"
    using assms by (intro fgets_final) (simp_all add: BSIZE_def)
  have sl: "strlen [c, NUL] \<le> 1" by (simp add: strlen_def)
  have fg2: "fgets BSIZE (exhaust fp) = (None, exhaust (exhaust fp))"
    by (intro fgets_eof) (simp add: exhaust_def)
  have "line_loop env outmode name fp st =
        line_loop env outmode name (exhaust fp) (st\<lparr>hash := 0\<rparr>)"
    using assms(2,3) sl
    by (subst line_loop.simps) (simp add: fg Let_def ferror_def exhaust_def)
  also have "\<dots> = st\<lparr>hash := 0\<rparr>"
    by (subst line_loop.simps) (simp add: fg2)
  finally show ?thesis .
qed

lemma line_loop_final_two:
  assumes "unread fp = B @ [d, c]" "\<not> faulty fp" "\<not> err_ind fp"
    and "nl \<notin> set (B @ [d, c])" "NUL \<notin> set (B @ [d, c])" "length B + 3 < BSIZE"
    and ok: "\<forall>b. fst (jody_block_hash env b 0) = 0"
  shows "line_loop env outmode name fp st =
           st\<lparr>hash := snd (jody_block_hash env (if d = cr then B @ [NUL] else B @ [d]) 0),
              stdout := stdout st @
                [PrintHash (snd (jody_block_hash env (if d = cr then B @ [NUL] else B @ [d]) 0)),
                 Str (if outmode = 3
                      then [CHR 0x20, squote] @ (if d = cr then B else B @ [d]) @ [squote, nl]
                      else [nl])]\<rparr>"
proof -
  let ?L = "B @ [d, c]"
  have fg: "fgets BSIZE fp = (Some (?L @ [NUL]), exhaust fp)"
    using assms by (intro fgets_final) simp_all
  have sl: "strlen (B @ [d, c, NUL]) = Suc (Suc (length B))"
    using strlen_append [OF assms(5), of "[]"] by simp
  have hd: "(B @ [d, c, NUL]) ! 0 \<noteq> nl"
    using assms(4) by (cases B) auto
  have nB: "NUL \<notin> set B" "d \<noteq> NUL" using assms(5) by auto
  have st1: "d = cr \<Longrightarrow> strip_newline (B @ [d, c, NUL]) (Suc (Suc (length B))) = B @ [NUL, c, NUL]"
    by (simp add: strip_newline_def)
  have st2: "d \<noteq> cr \<Longrightarrow> strip_newline (B @ [d, c, NUL]) (Suc (Suc (length B))) = B @ [d, NUL, NUL]"
    by (simp add: strip_newline_def list_update_append)
  have cs1: "cstring (B @ [NUL, c, NUL]) = B"
    using cstring_append [OF nB(1), of "[c, NUL]"] by simp
  have cs2: "cstring (B @ [d, NUL, NUL]) = B @ [d]"
    using cstring_append [of "B @ [d]" "[NUL]"] nB by simp
  show ?thesis
  proof (cases "d = cr")
    case True
    show ?thesis
      using assms(2,3) hd ok
      by (subst line_loop.simps)
         (simp add: fg sl st1 [OF True] cs1 True [symmetric] Let_def ferror_def feof_def
            exhaust_def printf_def)
  next
    case False
    show ?thesis
      using assms(2,3) hd ok
      by (subst line_loop.simps)
         (simp add: fg sl st2 [OF False] cs2 False Let_def ferror_def feof_def
            exhaust_def printf_def)
  qed
qed

lemma two_last:
  assumes "2 \<le> length L"
  shows "L = take (length L - 2) L @ [L ! (length L - 2), last L]"
proof -
  have ne: "L \<noteq> []" "butlast L \<noteq> []" using assms by (auto simp: butlast_conv_take)
  have a: "L = butlast L @ [last L]" using ne(1) by simp
  have b: "butlast L = butlast (butlast L) @ [last (butlast L)]" using ne(2) by simp
  have c: "butlast (butlast L) = take (length L - 2) L"
    by (simp add: butlast_conv_take numeral_2_eq_2)
  have d: "last (butlast L) = L ! (length L - 2)"
    using ne assms by (simp add: last_conv_nth nth_butlast) (metis One_nat_def Suc_1 diff_diff_left plus_1_eq_Suc)
  show ?thesis using a b c d by (metis append.assoc append_Cons append_Nil)
qed

lemma hash_stream_line_modes:
  "outmode = 2 \<or> outmode = 3 \<Longrightarrow>
     hash_stream env outmode name fp st = line_loop env outmode name fp st"
  by (auto simp: hash_stream_def)

text \<open>
  C9. The loop of the line modes (\<^verbatim>\<open>-l\<close> and \<^verbatim>\<open>-L\<close>), arrived at a last line \<open>L\<close>
  that has no newline (and no NUL byte, and fits the buffer), with a primitive that
  succeeds. The line is hashed without its last byte: the primitive gets the
  \<open>length L - 1\<close> bytes \<open>butlast L\<close> (\<^verbatim>\<open>abc\<close> is hashed as \<^verbatim>\<open>ab\<close>), where in addition
  a carriage return in the last but one position is replaced by a NUL. A last line of
  one byte and no newline is skipped: nothing is written for it.
\<close>

theorem final_unterminated_line:
  assumes "unread fp = L" "\<not> faulty fp" "\<not> err_ind fp"
    and "nl \<notin> set L" "NUL \<notin> set L" "length L + 1 < BSIZE"
    and "\<forall>b. fst (jody_block_hash env b 0) = 0"
  shows "(length L = 1 \<longrightarrow> line_loop env outmode name fp st = st\<lparr>hash := 0\<rparr>) \<and>
         (2 \<le> length L \<and> L ! (length L - 2) \<noteq> cr \<longrightarrow>
            line_loop env outmode name fp st =
              st\<lparr>hash := snd (jody_block_hash env (butlast L) 0),
                 stdout := stdout st @
                   [PrintHash (snd (jody_block_hash env (butlast L) 0)),
                    Str (if outmode = 3 then [CHR 0x20, squote] @ butlast L @ [squote, nl]
                         else [nl])]\<rparr>) \<and>
         (2 \<le> length L \<and> L ! (length L - 2) = cr \<longrightarrow>
            line_loop env outmode name fp st =
              st\<lparr>hash := snd (jody_block_hash env (take (length L - 2) L @ [NUL]) 0),
                 stdout := stdout st @
                   [PrintHash (snd (jody_block_hash env (take (length L - 2) L @ [NUL]) 0)),
                    Str (if outmode = 3
                         then [CHR 0x20, squote] @ take (length L - 2) L @ [squote, nl]
                         else [nl])]\<rparr>)"
proof -
  have one: "length L = 1 \<longrightarrow> line_loop env outmode name fp st = st\<lparr>hash := 0\<rparr>"
  proof
    assume "length L = 1"
    then obtain c where c: "L = [c]" by (cases L) auto
    then have "c \<noteq> nl" using assms(4) by auto
    then show "line_loop env outmode name fp st = st\<lparr>hash := 0\<rparr>"
      using assms(1-3) c by (intro line_loop_final_one) simp_all
  qed
  have two: "line_loop env outmode name fp st =
           st\<lparr>hash := snd (jody_block_hash env (if d = cr then B @ [NUL] else B @ [d]) 0),
              stdout := stdout st @
                [PrintHash (snd (jody_block_hash env (if d = cr then B @ [NUL] else B @ [d]) 0)),
                 Str (if outmode = 3
                      then [CHR 0x20, squote] @ (if d = cr then B else B @ [d]) @ [squote, nl]
                      else [nl])]\<rparr>"
    if "2 \<le> length L" "B = take (length L - 2) L" "d = L ! (length L - 2)" for B d
  proof -
    have L: "L = B @ [d, last L]" using two_last [OF that(1)] that(2,3) by simp
    have lenB: "length B + 2 = length L" using that(1,2) by simp
    show ?thesis
    proof (rule line_loop_final_two [where c = "last L"])
      show "unread fp = B @ [d, last L]" using assms(1) L by simp
      show "nl \<notin> set (B @ [d, last L])" using assms(4) L by metis
      show "NUL \<notin> set (B @ [d, last L])" using assms(5) L by metis
      show "length B + 3 < BSIZE" using assms(6) lenB by simp
    qed (use assms in simp_all)
  qed
  have bl: "butlast L = take (length L - 2) L @ [L ! (length L - 2)]" if "2 \<le> length L"
    using two_last [OF that]
    by (metis butlast.simps(2) butlast_append list.distinct(1) butlast_snoc append_Cons
          append_Nil)
  show ?thesis
    using one two [OF _ refl refl] bl by auto
qed

theorem final_unterminated_line_witness:
  "line_loop sample_env 2 ''f'' (fresh (''a'', False)) init_state = init_state \<and>
   line_loop sample_env 3 ''f'' (fresh (''abc'', False)) init_state =
     init_state\<lparr>hash := 3,
                stdout := [PrintHash 3, Str ([CHR 0x20, squote] @ ''ab'' @ [squote, nl])]\<rparr> \<and>
   line_loop sample_env 3 ''f'' (fresh ([CHR ''a'', cr, CHR ''b''], False)) init_state =
     init_state\<lparr>hash := 3,
                stdout := [PrintHash 3, Str ([CHR 0x20, squote] @ ''a'' @ [squote, nl])]\<rparr>"
proof -
  have ok: "\<forall>b. fst (jody_block_hash sample_env b 0) = 0"
    by (simp add: sample_env_def sample_hash_def)
  have w1: "line_loop sample_env 2 ''f'' (fresh (''a'', False)) init_state = init_state"
    using final_unterminated_line [of "fresh (''a'', False)" "''a''" sample_env 2 "''f''"
        init_state] ok
    by (simp add: BSIZE_def nl_def NUL_def init_state_def)
  have w2: "line_loop sample_env 3 ''f'' (fresh (''abc'', False)) init_state =
     init_state\<lparr>hash := 3,
                stdout := [PrintHash 3, Str ([CHR 0x20, squote] @ ''ab'' @ [squote, nl])]\<rparr>"
    using final_unterminated_line [of "fresh (''abc'', False)" "''abc''" sample_env 3 "''f''"
        init_state] ok
    by (simp add: BSIZE_def nl_def NUL_def cr_def init_state_def sample_env_def
          sample_hash_def)
  have w3: "line_loop sample_env 3 ''f'' (fresh ([CHR ''a'', cr, CHR ''b''], False)) init_state =
     init_state\<lparr>hash := 3,
                stdout := [PrintHash 3, Str ([CHR 0x20, squote] @ ''a'' @ [squote, nl])]\<rparr>"
    using final_unterminated_line [of "fresh ([CHR ''a'', cr, CHR ''b''], False)"
        "[CHR ''a'', cr, CHR ''b'']" sample_env 3 "''f''" init_state] ok
    by (simp add: BSIZE_def nl_def NUL_def cr_def init_state_def sample_env_def
          sample_hash_def)
  show ?thesis using w1 w2 w3 by simp
qed

subsection \<open>Runs of the program on given inputs\<close>

lemma get_line_Cons:
  "0 < k \<Longrightarrow> get_line k (c # cs) = (if c = nl then [c] else c # get_line (k - 1) cs)"
  by (cases k) simp_all

lemma get_line_empty [simp]: "get_line k [] = []"
  by (cases k) simp_all

lemmas run_defs =
  main_def select_outmode_def input_loop.simps do_body_def open_input_def fopen_def
  sample_fs_def fresh_def hash_stream_def line_loop.simps fread_loop.simps
  subblock_loop.simps fgets_def fread_def exhaust_def strlen_def cstring_def
  strip_newline_def hash_chunk_def rolling_message_def printf_def fprintf_stderr_def
  ERR_def fail_input_def feof_def ferror_def init_state_def BSIZE_def PATH_MAX_def
  kbsize_def NUL_def nl_def cr_def Let_def get_line_Cons

text \<open>
  C1. \<^verbatim>\<open>jodyhash -l f\<close> with a primitive that succeeds and computes \<open>f\<close>. For the file
  \<^verbatim>\<open>abc\r\n\<close> the primitive is called on the four bytes \<^verbatim>\<open>abc\<close> and NUL (the NUL that
  replaced the carriage return is inside the \<open>i - 1\<close> bytes hashed); for the file
  \<^verbatim>\<open>abc\n\<close> it is called on the three bytes \<^verbatim>\<open>abc\<close>. Likewise \<^verbatim>\<open>abcdefgh\r\n\<close> is
  hashed as nine bytes and \<^verbatim>\<open>abcdefgh\n\<close> as eight. The two digests of a pair are those
  of different byte sequences.
\<close>

theorem crlf_line_hashes_the_stripped_position:
  "main (env\<lparr>jody_block_hash := \<lambda>bs h. (0, f bs h)\<rparr>)
      (sample_fs (''abc'' @ [cr, nl]) False) src prog [''-l'', ''f''] =
     Some (\<lparr>stdout = [PrintHash (f (''abc'' @ [CHR 0x00]) 0), Str [CHR 0x0A]], stderr = [],
             error = EXIT_SUCCESS, read_err = 0, hash = f (''abc'' @ [CHR 0x00]) 0\<rparr>,
           EXIT_SUCCESS) \<and>
   main (env\<lparr>jody_block_hash := \<lambda>bs h. (0, f bs h)\<rparr>)
      (sample_fs (''abc'' @ [nl]) False) src prog [''-l'', ''f''] =
     Some (\<lparr>stdout = [PrintHash (f ''abc'' 0), Str [CHR 0x0A]], stderr = [],
             error = EXIT_SUCCESS, read_err = 0, hash = f ''abc'' 0\<rparr>,
           EXIT_SUCCESS) \<and>
   main (env\<lparr>jody_block_hash := \<lambda>bs h. (0, f bs h)\<rparr>)
      (sample_fs (''abcdefgh'' @ [cr, nl]) False) src prog [''-l'', ''f''] =
     Some (\<lparr>stdout = [PrintHash (f (''abcdefgh'' @ [CHR 0x00]) 0), Str [CHR 0x0A]],
             stderr = [], error = EXIT_SUCCESS, read_err = 0,
             hash = f (''abcdefgh'' @ [CHR 0x00]) 0\<rparr>,
           EXIT_SUCCESS) \<and>
   main (env\<lparr>jody_block_hash := \<lambda>bs h. (0, f bs h)\<rparr>)
      (sample_fs (''abcdefgh'' @ [nl]) False) src prog [''-l'', ''f''] =
     Some (\<lparr>stdout = [PrintHash (f ''abcdefgh'' 0), Str [CHR 0x0A]], stderr = [],
             error = EXIT_SUCCESS, read_err = 0, hash = f ''abcdefgh'' 0\<rparr>,
           EXIT_SUCCESS)"
  by (simp add: run_defs)

text \<open>
  C2. \<^verbatim>\<open>jodyhash -L f\<close> on a file that holds the one line \<^verbatim>\<open>\r\n\<close>: the line is not
  skipped. Its length 2 passes the test \<open>i < 2\<close>, the primitive is called on one NUL
  byte, and a digest line with an empty quoted text is written.
\<close>

theorem crlf_only_line_is_hashed:
  "main (env\<lparr>jody_block_hash := \<lambda>bs h. (0, f bs h)\<rparr>)
      (sample_fs [cr, nl] False) src prog [''-L'', ''f''] =
     Some (\<lparr>stdout = [PrintHash (f [CHR 0x00] 0), Str [CHR 0x20, CHR 0x27, CHR 0x27, CHR 0x0A]],
             stderr = [], error = EXIT_SUCCESS, read_err = 0, hash = f [CHR 0x00] 0\<rparr>,
           EXIT_SUCCESS)"
  by (simp add: run_defs squote_def)

text \<open>
  C4. \<^verbatim>\<open>jodyhash f\<close> on a file whose read fails with no byte delivered, before the
  first byte or after a first chunk of 32768 bytes: \<^verbatim>\<open>fread\<close> returns 0, the loop
  ends without its body and the \<^verbatim>\<open>ferror\<close> test in it, and the program writes a
  digest line (of the digest zero, or of the first chunk), no diagnostic for the
  error, and exits with success.
\<close>

theorem read_fault_with_no_bytes_prints_digest:
  "main env (sample_fs [] True) src prog [''f''] =
     Some (\<lparr>stdout = [PrintHash 0, Str [CHR 0x0A]], stderr = [],
             error = EXIT_SUCCESS, read_err = 0, hash = 0\<rparr>,
           EXIT_SUCCESS) \<and>
   main (env\<lparr>jody_block_hash := \<lambda>bs h. (0, f bs h)\<rparr>)
      (sample_fs (replicate 32768 (CHR ''a'')) True) src prog [''f''] =
     Some (\<lparr>stdout = [PrintHash (f (replicate 32768 (CHR ''a'')) 0), Str [CHR 0x0A]],
             stderr = [Str ''doing a rolling hash of '', Num 32768,
                       Str ('' bytes'' @ [CHR 0x0A])],
             error = EXIT_SUCCESS, read_err = 0, hash = f (replicate 32768 (CHR ''a'')) 0\<rparr>,
           EXIT_SUCCESS)"
  by (simp add: run_defs)

text \<open>
  C6. \<^verbatim>\<open>jodyhash f\<close> on a file that fails after five bytes: the read error found in
  the chunked loop writes the name and a newline only, without the text
  \<^verbatim>\<open>error reading file: \<close> in front.
\<close>

theorem read_fault_in_chunk_loop_message:
  "main env (sample_fs ''hello'' True) src prog [''f''] =
     Some (\<lparr>stdout = [], stderr = [Str (''f'' @ [CHR 0x0A])],
             error = EXIT_FAILURE, read_err = 0, hash = 0\<rparr>,
           EXIT_FAILURE)"
  by (simp add: run_defs)

text \<open>
  C7. \<^verbatim>\<open>jodyhash -l f\<close> on a file that fails while its first line is read:
  \<^verbatim>\<open>fgets\<close> returns a null pointer, the loop ends as at the end of the file, and the
  exit status is success although the input failed to read.
\<close>

theorem read_fault_in_line_mode_exits_with_success:
  "main env (sample_fs ''abc'' True) src prog [''-l'', ''f''] =
     Some (\<lparr>stdout = [], stderr = [], error = EXIT_SUCCESS, read_err = 0, hash = 0\<rparr>,
           EXIT_SUCCESS)"
  by (simp add: run_defs)

text \<open>
  The scenario of two arguments, the first of which cannot be opened: one message, one
  digest line for the second file, and the exit status of failure.
\<close>

lemma cannot_open_then_valid:
  "main (env\<lparr>jody_block_hash := \<lambda>bs h. (0, f bs h)\<rparr>)
      (sample_fs ''hello'' False) src prog [''missing'', ''f''] =
     Some (\<lparr>stdout = [PrintHash (f ''hello'' 0), Str [CHR 0x0A]],
             stderr = [Str ''error: cannot open: '', Str (''missing'' @ [CHR 0x0A]),
                       Str ''doing a rolling hash of '', Num 5, Str ('' bytes'' @ [CHR 0x0A])],
             error = EXIT_FAILURE, read_err = 0, hash = f ''hello'' 0\<rparr>,
           EXIT_FAILURE)"
  by (simp add: run_defs eval_nat_numeral)

text \<open>
  A read error that arrives with some bytes of a chunk is found: no digest line, the
  exit status of failure, and the next argument is processed.
\<close>

lemma read_fault_inside_chunk_then_valid:
  "main (env\<lparr>jody_block_hash := \<lambda>bs h. (0, f bs h)\<rparr>)
      (\<lambda>p. if p = ''bad'' then Some (''xy'', True) else sample_fs ''hello'' False p)
      src prog [''bad'', ''f''] =
     Some (\<lparr>stdout = [PrintHash (f ''hello'' 0), Str [CHR 0x0A]],
             stderr = [Str (''bad'' @ [CHR 0x0A]),
                       Str ''doing a rolling hash of '', Num 5, Str ('' bytes'' @ [CHR 0x0A])],
             error = EXIT_FAILURE, read_err = 0, hash = f ''hello'' 0\<rparr>,
           EXIT_FAILURE)"
  by (simp add: run_defs eval_nat_numeral)

end
